theory Spec2Isabelle
  imports Complex_Main "HOL-Library.Multiset"
begin

section \<open>JavaScript values\<close>

text \<open>
  The values the prober handles: what \<open>response.json()\<close> can yield, plus \<open>undefined\<close>,
  which a missing property reads as. A number carries the value of the parsed double;
  only whether it is zero matters below. An object lists its own properties, each name once.
\<close>

datatype jsval =
    JUndefined
  | JNull
  | JBool bool
  | JNum real
  | JStr string
  | JArr "jsval list"
  | JObj "(string \<times> jsval) list"

text \<open>ToBoolean: what \<open>&&\<close>, \<open>?:\<close>, \<open>!\<close> and \<open>filter\<close> test.\<close>

fun truthy :: "jsval \<Rightarrow> bool" where
  "truthy JUndefined = False"
| "truthy JNull = False"
| "truthy (JBool b) = b"
| "truthy (JNum r) = (r \<noteq> 0)"
| "truthy (JStr s) = (s \<noteq> [])"
| "truthy (JArr xs) = True"
| "truthy (JObj ps) = True"

text \<open>
  \<open>data.list\<close>. It is only evaluated behind \<open>data &&\<close>, so never on \<open>null\<close> or
  \<open>undefined\<close> (where it would throw); a primitive or an array has no such property.
\<close>

fun prop_list :: "jsval \<Rightarrow> jsval" where
  "prop_list (JObj ps) = (case map_of ps ''list'' of None \<Rightarrow> JUndefined | Some v \<Rightarrow> v)"
| "prop_list v = JUndefined"

fun isArray :: "jsval \<Rightarrow> bool" where
  "isArray (JArr xs) = True"
| "isArray v = False"

text \<open>\<open>data.list.length\<close>, read only when \<open>data.list\<close> is an array.\<close>

fun array_length :: "jsval \<Rightarrow> nat" where
  "array_length (JArr xs) = length xs"
| "array_length v = 0"

section \<open>Configuration\<close>

text \<open>
  The two entries of \<open>CONFIG\<close> that decide control flow. The timeout only sets when the
  timer aborts a fetch, and the query suffix is part of the address fetched; both are left
  to the network below.
\<close>

definition CONFIG_concurrency :: nat where
  "CONFIG_concurrency = 10"

definition CONFIG_retryCount :: int where
  "CONFIG_retryCount = 1"

section \<open>One attempt as the network presents it\<close>

text \<open>A thrown \<open>Error\<close>: its \<open>name\<close> and its \<open>message\<close>.\<close>

record js_error =
  errName :: string
  errMessage :: string

text \<open>
  A \<open>Response\<close>: the numeric status and what \<open>response.json()\<close> does with the body
  (a parsed value, or a thrown error when the body is not JSON).
\<close>

record response =
  respStatus :: nat
  respJson :: "js_error + jsval"

text \<open>\<open>response.ok\<close> is true exactly for the statuses 200 to 299.\<close>

definition ok :: "response \<Rightarrow> bool" where
  "ok r = (200 \<le> respStatus r \<and> respStatus r \<le> 299)"

text \<open>
  One call of \<open>testApi\<close> performs one \<open>fetch\<close>. An attempt records what that fetch does
  (it rejects with an error, or resolves with a response) and the clock readings of the call:
  \<open>Date.now()\<close> before the fetch, after the fetch resolved, and inside the \<open>catch\<close>
  block. When the timer set for \<open>CONFIG.timeout\<close> fires, the controller aborts the fetch,
  which rejects with an error named \<open>AbortError\<close>.
\<close>

record attempt =
  startTime :: int
  fetched :: "js_error + response"
  nowAfterFetch :: int
  nowInCatch :: int

section \<open>testApi\<close>

record result =
  key :: string
  api :: string
  status :: string
  httpCode :: "nat option"
  time :: int
  dataCount :: "nat option"
  hasValidData :: jsval
  error :: "string option"

text \<open>
  A property an object literal does not mention reads as \<open>undefined\<close>: \<open>None\<close> for
  \<open>httpCode\<close>, \<open>dataCount\<close> and \<open>error\<close>, \<open>JUndefined\<close> for \<open>hasValidData\<close>.
\<close>

text \<open>Decimal digits of a number, for the template string \<open>HTTP ${response.status}\<close>.\<close>

fun digit_char :: "nat \<Rightarrow> char" where
  "digit_char d = char_of (48 + d)"

fun to_string :: "nat \<Rightarrow> string" where
  "to_string n = (if n < 10 then [digit_char n] else to_string (n div 10) @ [digit_char (n mod 10)])"

declare to_string.simps [simp del]

text \<open>The two-character message of a timed-out probe, as its UTF-8 bytes.\<close>

definition timeout_message :: string where
  "timeout_message = [CHR 0xE8, CHR 0xB6, CHR 0x85, CHR 0xE6, CHR 0x97, CHR 0xB6]"

text \<open>\<open>const hasData = data && data.list && Array.isArray(data.list)\<close>\<close>

definition hasData_of :: "jsval \<Rightarrow> jsval" where
  "hasData_of data =
     (if \<not> truthy data then data
      else if \<not> truthy (prop_list data) then prop_list data
      else JBool (isArray (prop_list data)))"

text \<open>\<open>const count = hasData ? data.list.length : 0\<close>\<close>

definition count_of :: "jsval \<Rightarrow> nat" where
  "count_of data = (if truthy (hasData_of data) then array_length (prop_list data) else 0)"

text \<open>\<open>hasData && count > 0\<close>\<close>

definition hasValidData_of :: "jsval \<Rightarrow> jsval" where
  "hasValidData_of data =
     (if \<not> truthy (hasData_of data) then hasData_of data else JBool (count_of data > 0))"

text \<open>
  The \<open>try\<close> block of \<open>testApi\<close>: \<open>Inl\<close> is the error it throws (the fetch rejected, or
  \<open>response.json()\<close> did), \<open>Inr\<close> the object it returns.
\<close>

definition try_block :: "string \<Rightarrow> string \<Rightarrow> attempt \<Rightarrow> js_error + result" where
  "try_block k apiUrl a =
     (case fetched a of
        Inl err \<Rightarrow> Inl err
      | Inr resp \<Rightarrow>
          (let elapsed = nowAfterFetch a - startTime a in
           if ok resp then
             (case respJson resp of
                Inl err \<Rightarrow> Inl err
              | Inr data \<Rightarrow>
                  Inr \<lparr>key = k, api = apiUrl, status = ''success'',
                       httpCode = Some (respStatus resp), time = elapsed,
                       dataCount = Some (count_of data),
                       hasValidData = hasValidData_of data, error = None\<rparr>)
           else
             Inr \<lparr>key = k, api = apiUrl, status = ''http_error'',
                  httpCode = Some (respStatus resp), time = elapsed,
                  dataCount = None, hasValidData = JUndefined,
                  error = Some (''HTTP '' @ to_string (respStatus resp))\<rparr>))"

text \<open>
  \<open>testApi key apiUrl retries\<close>, with the network as a parameter: \<open>w i\<close> is the attempt
  that the \<open>i\<close>-th fetch of this probe goes through, and \<open>n\<close> counts the fetches issued so
  far. The result is the returned object and the number of fetches issued when it returns.
  Every call reads its own \<open>startTime\<close>; the retry is the recursive call, whose result is
  returned as it is.
\<close>

function testApi :: "string \<Rightarrow> string \<Rightarrow> int \<Rightarrow> (nat \<Rightarrow> attempt) \<Rightarrow> nat \<Rightarrow> result \<times> nat" where
  "testApi k apiUrl retries w n =
     (case try_block k apiUrl (w n) of
        Inr r \<Rightarrow> (r, Suc n)
      | Inl err \<Rightarrow>
          (let elapsed = nowInCatch (w n) - startTime (w n) in
           if retries > 0 \<and> errName err \<noteq> ''AbortError''
           then testApi k apiUrl (retries - 1) w (Suc n)
           else (\<lparr>key = k, api = apiUrl, status = ''error'',
                  httpCode = None, time = elapsed,
                  dataCount = None, hasValidData = JUndefined,
                  error = Some (if errName err = ''AbortError'' then timeout_message
                                else errMessage err)\<rparr>, Suc n)))"
  by pat_completeness auto
termination
  by (relation "measure (\<lambda>(k, apiUrl, retries, w, n). nat retries)") auto

declare testApi.simps [simp del]

section \<open>runWithConcurrency\<close>

text \<open>
  A task is an async function; a call returns a promise that is fulfilled some time later.
  What a task returns depends on what it meets on the network, so a task is a function from
  that (\<open>'w\<close>) to its value. The tasks of \<open>main\<close> never reject: \<open>testApi\<close> catches
  every error of its \<open>try\<close> block.

  The promise built for the \<open>j\<close>-th task is named \<open>j\<close>. The state holds the variables of
  the function (\<open>promises\<close> is its local array \<open>results\<close>, \<open>executing\<close> its Set in
  insertion order), the promises fulfilled so far with their values, and where the function
  body stands: at the head of the \<open>for\<close> loop, suspended in \<open>await Promise.race\<close> on the
  promises that were in the Set at that moment, suspended in \<open>Promise.all\<close>, or returned.
\<close>

datatype 'r pc = LoopHead | AwaitRace "nat list" | AwaitAll | Returned "'r list"

record 'r sched =
  nextTask :: nat
  promises :: "nat list"
  executing :: "nat list"
  settled :: "nat \<rightharpoonup> 'r"
  pc :: "'r pc"

definition init :: "'r sched" where
  "init = \<lparr>nextTask = 0, promises = [], executing = [], settled = Map.empty, pc = LoopHead\<rparr>"

text \<open>
  What can happen next on the event loop:
  \<^item> \<open>Dispatch\<close>: one pass through the loop body, from \<open>task()\<close> to the test of
    \<open>executing.size >= concurrency\<close>, which either suspends in the race or goes on;
  \<^item> \<open>Settle j w\<close>: the pending promise \<open>j\<close> is fulfilled, its task having met \<open>w\<close>; its
    \<open>then\<close> callback deletes it from the Set, and a race that contains it resumes the loop;
  \<^item> \<open>ExitLoop\<close>: the tasks are used up and \<open>Promise.all(results)\<close> is called;
  \<^item> \<open>Return\<close>: every promise of the array is fulfilled and \<open>Promise.all\<close> yields their
    values in the order of the array.
  Settlements are allowed between any two steps, which is more than the event loop permits.
\<close>

datatype 'w event = Dispatch | Settle nat 'w | ExitLoop | Return

fun step :: "('w \<Rightarrow> 'r) list \<Rightarrow> nat \<Rightarrow> 'w event \<Rightarrow> 'r sched \<Rightarrow> 'r sched option" where
  "step tasks concurrency Dispatch s =
     (if pc s = LoopHead \<and> nextTask s < length tasks then
        (let promise = nextTask s;
             ex = (if promise \<in> set (executing s) then executing s else executing s @ [promise])
         in Some (s\<lparr>nextTask := Suc promise,
                    promises := promises s @ [promise],
                    executing := ex,
                    pc := (if length ex \<ge> concurrency then AwaitRace ex else LoopHead)\<rparr>))
      else None)"
| "step tasks concurrency (Settle j w) s =
     (if j < nextTask s \<and> settled s j = None then
        Some (s\<lparr>executing := removeAll j (executing s),
                 settled := (settled s)(j \<mapsto> (tasks ! j) w),
                 pc := (case pc s of
                          AwaitRace raced \<Rightarrow> if j \<in> set raced then LoopHead else AwaitRace raced
                        | p \<Rightarrow> p)\<rparr>)
      else None)"
| "step tasks concurrency ExitLoop s =
     (if pc s = LoopHead \<and> nextTask s = length tasks then Some (s\<lparr>pc := AwaitAll\<rparr>) else None)"
| "step tasks concurrency Return s =
     (if pc s = AwaitAll then
        (case those (map (settled s) (promises s)) of
           None \<Rightarrow> None
         | Some values \<Rightarrow> Some (s\<lparr>pc := Returned values\<rparr>))
      else None)"

text \<open>A schedule is a list of events; it is possible when each event is enabled in turn.\<close>

fun run :: "('w \<Rightarrow> 'r) list \<Rightarrow> nat \<Rightarrow> 'w event list \<Rightarrow> 'r sched \<Rightarrow> 'r sched option" where
  "run tasks concurrency [] s = Some s"
| "run tasks concurrency (e # es) s =
     (case step tasks concurrency e s of
        None \<Rightarrow> None
      | Some s' \<Rightarrow> run tasks concurrency es s')"

text \<open>The value \<open>runWithConcurrency\<close> resolves to under a schedule, if it has returned.\<close>

definition runWithConcurrency :: "('w \<Rightarrow> 'r) list \<Rightarrow> nat \<Rightarrow> 'w event list \<Rightarrow> 'r list option" where
  "runWithConcurrency tasks concurrency evs =
     (case run tasks concurrency evs init of
        None \<Rightarrow> None
      | Some s \<Rightarrow> (case pc s of Returned values \<Rightarrow> Some values | _ \<Rightarrow> None))"

text \<open>The tasks in flight: dispatched and not yet settled.\<close>

definition inflight :: "'r sched \<Rightarrow> nat list" where
  "inflight s = filter (\<lambda>j. settled s j = None) [0..<nextTask s]"

text \<open>What the task \<open>j\<close> met, read off the schedule: the \<open>w\<close> of its settlement.\<close>

fun settle_world :: "'w event list \<Rightarrow> nat \<Rightarrow> 'w option" where
  "settle_world [] j = None"
| "settle_world (Settle i w # es) j = (if i = j then Some w else settle_world es j)"
| "settle_world (e # es) j = settle_world es j"

section \<open>main\<close>

text \<open>An entry of \<open>config.api_site\<close>.\<close>

record site =
  siteApi :: string
  siteName :: string

record named_result = result +
  name :: string

text \<open>
  The task \<open>main\<close> creates for a key: \<open>testApi(key, site.api)\<close> with the default
  \<open>retries\<close>, then \<open>{ ...result, name: site.name }\<close>. The progress line it prints is left out.
\<close>

definition task :: "string \<times> site \<Rightarrow> (nat \<Rightarrow> attempt) \<Rightarrow> named_result" where
  "task entry w =
     (let site = snd entry;
          result = fst (testApi (fst entry) (siteApi site) CONFIG_retryCount w 0)
      in result.extend result (named_result.fields (siteName site)))"

text \<open>
  Arrays are objects: \<open>filter\<close> and \<open>map\<close> build a new array, \<open>sort\<close> reorders its array
  in place. The store is the list of the arrays allocated so far; an array is named by its
  position in it.
\<close>

type_synonym store = "named_result list list"

definition filter_array :: "(named_result \<Rightarrow> bool) \<Rightarrow> nat \<Rightarrow> store \<Rightarrow> nat \<times> store" where
  "filter_array p a h = (length h, h @ [filter p (h ! a)])"

text \<open>
  \<open>array.sort((a, b) => a.time - b.time)\<close>: ascending by \<open>time\<close>; the sort of the language
  is stable, and so is \<open>sort_key\<close>.
\<close>

definition sort_array :: "nat \<Rightarrow> store \<Rightarrow> store" where
  "sort_array a h = h[a := sort_key time (h ! a)]"

text \<open>The object \<open>main\<close> maps each result to, property by property.\<close>

definition opt_num :: "nat option \<Rightarrow> jsval" where
  "opt_num v = (case v of None \<Rightarrow> JUndefined | Some n \<Rightarrow> JNum (real n))"

definition opt_str :: "string option \<Rightarrow> jsval" where
  "opt_str v = (case v of None \<Rightarrow> JUndefined | Some s \<Rightarrow> JStr s)"

definition report_entry :: "named_result \<Rightarrow> (string \<times> jsval) list" where
  "report_entry r =
     [(''key'', JStr (key r)),
      (''name'', JStr (name r)),
      (''api'', JStr (api r)),
      (''status'', JStr (status r)),
      (''httpCode'', opt_num (httpCode r)),
      (''timeMs'', JNum (real_of_int (time r))),
      (''dataCount'', opt_num (dataCount r)),
      (''hasValidData'', hasValidData r),
      (''error'', opt_str (error r))]"

record report =
  testTime :: string
  totalApis :: nat
  successCount :: nat
  noDataCount :: nat
  failedCount :: nat
  totalTimeMs :: int
  results :: "(string \<times> jsval) list list"

text \<open>
  \<open>main\<close> from the moment \<open>runWithConcurrency\<close> has resolved: the three filters, the
  sort of \<open>successful\<close> for the list that is printed, and the report. The array \<open>results\<close>
  is at position 0 of the store. The outcome is the report, the successful results in the
  order they are printed, and the final store.
\<close>

definition is_successful :: "named_result \<Rightarrow> bool" where
  "is_successful r = (status r = ''success'' \<and> truthy (hasValidData r))"

definition is_noData :: "named_result \<Rightarrow> bool" where
  "is_noData r = (status r = ''success'' \<and> \<not> truthy (hasValidData r))"

definition is_failed :: "named_result \<Rightarrow> bool" where
  "is_failed r = (status r \<noteq> ''success'')"

definition aggregate :: "named_result list \<Rightarrow> int \<Rightarrow> string \<Rightarrow> report \<times> named_result list \<times> store" where
  "aggregate rs totalTime now =
     (let h0 = [rs];
          results = 0;
          (successful, h1) = filter_array is_successful results h0;
          (noData, h2) = filter_array is_noData results h1;
          (failed, h3) = filter_array is_failed results h2;
          h4 = (if length (h3 ! successful) > 0 then sort_array successful h3 else h3);
          printed = (if length (h3 ! successful) > 0 then h4 ! successful else []);
          report = \<lparr>testTime = now,
                    totalApis = length (h4 ! results),
                    successCount = length (h4 ! successful),
                    noDataCount = length (h4 ! noData),
                    failedCount = length (h4 ! failed),
                    totalTimeMs = totalTime,
                    results = map report_entry (h4 ! results)\<rparr>
      in (report, printed, h4))"

text \<open>
  \<open>JSON.stringify\<close> leaves out every property whose value is \<open>undefined\<close>. The persisted
  document, as the tree of values that the written text denotes.
\<close>

definition stringify_object :: "(string \<times> jsval) list \<Rightarrow> jsval" where
  "stringify_object props = JObj (filter (\<lambda>(k, v). v \<noteq> JUndefined) props)"

definition persisted :: "report \<Rightarrow> jsval" where
  "persisted rep =
     stringify_object
       [(''testTime'', JStr (testTime rep)),
        (''totalApis'', JNum (real (totalApis rep))),
        (''successCount'', JNum (real (successCount rep))),
        (''noDataCount'', JNum (real (noDataCount rep))),
        (''failedCount'', JNum (real (failedCount rep))),
        (''totalTimeMs'', JNum (real_of_int (totalTimeMs rep))),
        (''results'', JArr (map stringify_object (results rep)))]"

text \<open>The property names of a persisted object.\<close>

fun fields_of :: "jsval \<Rightarrow> string list" where
  "fields_of (JObj ps) = map fst ps"
| "fields_of v = []"

text \<open>
  A whole run of \<open>main\<close> over the entries of \<open>config.api_site\<close> (in the order of
  \<open>Object.keys\<close>), under a schedule of the event loop.
\<close>

definition main :: "(string \<times> site) list \<Rightarrow> (nat \<Rightarrow> attempt) event list \<Rightarrow> int \<Rightarrow> string \<Rightarrow> report option" where
  "main apiSites evs totalTime now =
     (case runWithConcurrency (map task apiSites) CONFIG_concurrency evs of
        None \<Rightarrow> None
      | Some rs \<Rightarrow> Some (fst (aggregate rs totalTime now)))"

text \<open>Reading the persisted document back: its \<open>results\<close> and a property of an object.\<close>

fun doc_results :: "jsval \<Rightarrow> jsval list" where
  "doc_results (JObj ps) = (case map_of ps ''results'' of Some (JArr ds) \<Rightarrow> ds | _ \<Rightarrow> [])"
| "doc_results v = []"

fun field :: "jsval \<Rightarrow> string \<Rightarrow> jsval option" where
  "field (JObj ps) k = map_of ps k"
| "field v k = None"

section \<open>Invariants of the scheduler\<close>

definition order_inv :: "('w \<Rightarrow> 'r) list \<Rightarrow> 'r sched \<Rightarrow> bool" where
  "order_inv tasks s \<longleftrightarrow>
     nextTask s \<le> length tasks \<and>
     promises s = [0..<nextTask s] \<and>
     (pc s = AwaitAll \<longrightarrow> nextTask s = length tasks) \<and>
     (\<forall>vs. pc s = Returned vs \<longrightarrow>
        nextTask s = length tasks \<and> map Some vs = map (settled s) [0..<nextTask s])"

definition bound_inv :: "nat \<Rightarrow> 'r sched \<Rightarrow> bool" where
  "bound_inv concurrency s \<longleftrightarrow>
     distinct (executing s) \<and>
     set (executing s) = {j. j < nextTask s \<and> settled s j = None} \<and>
     (\<forall>j \<ge> nextTask s. settled s j = None) \<and>
     length (executing s) \<le> concurrency \<and>
     (pc s = LoopHead \<longrightarrow> length (executing s) < concurrency) \<and>
     (\<forall>raced. pc s = AwaitRace raced \<longrightarrow> raced = executing s)"

text \<open>
  The schedule that runs the tasks one at a time from task \<open>k\<close> on, each settling (having
  met \<open>ws i\<close>) before the next is dispatched, and the state in which the first \<open>k\<close>
  tasks have been run that way.
\<close>

definition one_by_one :: "('w \<Rightarrow> 'r) list \<Rightarrow> (nat \<Rightarrow> 'w) \<Rightarrow> nat \<Rightarrow> 'w event list" where
  "one_by_one tasks ws k = concat (map (\<lambda>i. [Dispatch, Settle i (ws i)]) [k..<length tasks])"

definition settled_upto :: "('w \<Rightarrow> 'r) list \<Rightarrow> (nat \<Rightarrow> 'w) \<Rightarrow> nat \<Rightarrow> 'r sched" where
  "settled_upto tasks ws k =
     \<lparr>nextTask = k, promises = [0..<k], executing = [],
      settled = (\<lambda>j. if j < k then Some ((tasks ! j) (ws j)) else None), pc = LoopHead\<rparr>"

section \<open>Example networks and an example run\<close>

text \<open>
  A connection that fails once and then answers 200 with a list of one item; an endpoint
  that never answers, so the timer aborts the fetch; a refused connection followed by a 200
  whose body is not JSON; a 404; and a 200 whose body is the empty object.
\<close>

definition reset_then_ok :: "nat \<Rightarrow> attempt" where
  "reset_then_ok i =
     (if i = 0 then
        \<lparr>startTime = 0, fetched = Inl \<lparr>errName = ''TypeError'', errMessage = ''fetch failed''\<rparr>,
         nowAfterFetch = 0, nowInCatch = 100\<rparr>
      else
        \<lparr>startTime = 100,
         fetched = Inr \<lparr>respStatus = 200, respJson = Inr (JObj [(''list'', JArr [JNum 1])])\<rparr>,
         nowAfterFetch = 150, nowInCatch = 150\<rparr>)"

definition never_responds :: "nat \<Rightarrow> attempt" where
  "never_responds i =
     \<lparr>startTime = 0,
      fetched = Inl \<lparr>errName = ''AbortError'', errMessage = ''This operation was aborted''\<rparr>,
      nowAfterFetch = 0, nowInCatch = 8000\<rparr>"

definition refused_then_malformed :: "nat \<Rightarrow> attempt" where
  "refused_then_malformed i =
     (if i = 0 then
        \<lparr>startTime = 0, fetched = Inl \<lparr>errName = ''TypeError'', errMessage = ''fetch failed''\<rparr>,
         nowAfterFetch = 0, nowInCatch = 30\<rparr>
      else
        \<lparr>startTime = 30,
         fetched = Inr \<lparr>respStatus = 200,
                        respJson = Inl \<lparr>errName = ''SyntaxError'', errMessage = ''Unexpected token''\<rparr>\<rparr>,
         nowAfterFetch = 70, nowInCatch = 75\<rparr>)"

definition not_found :: "nat \<Rightarrow> attempt" where
  "not_found i =
     \<lparr>startTime = 0, fetched = Inr \<lparr>respStatus = 404, respJson = Inr JNull\<rparr>,
      nowAfterFetch = 20, nowInCatch = 20\<rparr>"

definition empty_object :: "nat \<Rightarrow> attempt" where
  "empty_object i =
     \<lparr>startTime = 0, fetched = Inr \<lparr>respStatus = 200, respJson = Inr (JObj [])\<rparr>,
      nowAfterFetch = 20, nowInCatch = 20\<rparr>"

text \<open>
  Three endpoints; all three are dispatched at once and settle in the order third, first,
  second.
\<close>

definition example_sites :: "(string \<times> site) list" where
  "example_sites =
     [(''a'', \<lparr>siteApi = ''http://a'', siteName = ''A''\<rparr>),
      (''b'', \<lparr>siteApi = ''http://b'', siteName = ''B''\<rparr>),
      (''d'', \<lparr>siteApi = ''http://d'', siteName = ''D''\<rparr>)]"

definition example_schedule :: "(nat \<Rightarrow> attempt) event list" where
  "example_schedule =
     [Dispatch, Dispatch, Dispatch, Settle 2 never_responds, ExitLoop,
      Settle 0 reset_then_ok, Settle 1 not_found, Return]"

definition result_a :: named_result where
  "result_a = \<lparr>key = ''a'', api = ''http://a'', status = ''success'', httpCode = Some 200, time = 50,
       dataCount = Some 1, hasValidData = JBool True, error = None, name = ''A''\<rparr>"

definition result_b :: named_result where
  "result_b = \<lparr>key = ''b'', api = ''http://b'', status = ''http_error'', httpCode = Some 404, time = 20,
       dataCount = None, hasValidData = JUndefined, error = Some ''HTTP 404'', name = ''B''\<rparr>"

definition result_d :: named_result where
  "result_d = \<lparr>key = ''d'', api = ''http://d'', status = ''error'', httpCode = None, time = 8000,
       dataCount = None, hasValidData = JUndefined, error = Some timeout_message, name = ''D''\<rparr>"

section \<open>The probe\<close>

lemmas eval_probe = testApi.simps try_block_def ok_def count_of_def hasValidData_of_def hasData_of_def

text \<open>The \<open>try\<close> block throws exactly when the fetch rejects or a 2xx body fails to parse.\<close>

lemma try_block_throws:
  "try_block k apiUrl a = Inl err \<longleftrightarrow>
     fetched a = Inl err \<or> (\<exists>resp. fetched a = Inr resp \<and> ok resp \<and> respJson resp = Inl err)"
  by (auto simp: try_block_def Let_def split: sum.splits)

text \<open>
  C1, as the claim states it: after one failed attempt (0 ms to 100 ms) and one successful
  retry (100 ms to 150 ms) the reported \<open>time\<close> would be the 150 ms from the start of the
  first attempt. The code reports 50.
\<close>

theorem elapsed_includes_retries_counterexample:
  "snd (testApi ''a'' ''http://a'' 1 reset_then_ok 0) = 2 \<and>
   time (fst (testApi ''a'' ''http://a'' 1 reset_then_ok 0)) = 50 \<and>
   nowAfterFetch (reset_then_ok 1) - startTime (reset_then_ok 0) = 150"
  by (simp add: eval_probe reset_then_ok_def)

text \<open>
  C1, amended: the \<open>time\<close> of the outcome is measured within the last attempt alone, from
  that attempt's own \<open>startTime\<close>; earlier attempts are not included. For an outcome with
  status \<open>success\<close> or \<open>http_error\<close> it ends at the clock reading taken as soon as
  the fetch has resolved, before the body is read and parsed; for an outcome with status
  \<open>error\<close> it ends at the reading taken in the \<open>catch\<close> block. \<open>m - 1\<close> is the
  index of the last attempt.
\<close>

theorem final_attempt_time:
  assumes "testApi k apiUrl retries w n = (r, m)"
  shows "n < m \<and> time r = (if status r = ''error'' then nowInCatch (w (m - 1)) else nowAfterFetch (w (m - 1))) - startTime (w (m - 1))"
  using assms
proof (induction k apiUrl retries w n rule: testApi.induct)
  case (1 k apiUrl retries w n)
  show ?case
  proof (cases "try_block k apiUrl (w n)")
    case (Inr r')
    with "1.prems" have "r = r'" "m = Suc n" by (simp_all add: testApi.simps)
    moreover from Inr have "status r' \<noteq> ''error''" "time r' = nowAfterFetch (w n) - startTime (w n)"
      by (auto simp: try_block_def Let_def split: sum.splits if_splits)
    ultimately show ?thesis by simp
  next
    case (Inl err)
    show ?thesis
    proof (cases "retries > 0 \<and> errName err \<noteq> ''AbortError''")
      case True
      with Inl "1.prems" have "testApi k apiUrl (retries - 1) w (Suc n) = (r, m)"
        by (simp add: testApi.simps[of k apiUrl retries])
      from "1.IH"[OF Inl refl True this] show ?thesis by auto
    next
      case False
      with Inl "1.prems" show ?thesis
        by (auto simp: testApi.simps[of k apiUrl retries])
    qed
  qed
qed

theorem final_attempt_time_witness:
  "testApi ''a'' ''http://a'' 1 reset_then_ok 0 =
     (\<lparr>key = ''a'', api = ''http://a'', status = ''success'', httpCode = Some 200, time = 50,
       dataCount = Some 1, hasValidData = JBool True, error = None\<rparr>, 2) \<and>
   (0::nat) < 2 \<and>
   time \<lparr>key = ''a'', api = ''http://a'', status = ''success'', httpCode = Some 200, time = 50,
       dataCount = Some 1, hasValidData = JBool True, error = None\<rparr> = nowAfterFetch (reset_then_ok 1) - startTime (reset_then_ok 1)"
proof -
  have run: "testApi ''a'' ''http://a'' 1 reset_then_ok 0 =
     (\<lparr>key = ''a'', api = ''http://a'', status = ''success'', httpCode = Some 200, time = 50,
       dataCount = Some 1, hasValidData = JBool True, error = None\<rparr>, 2)"
    by (simp add: eval_probe reset_then_ok_def)
  from final_attempt_time[OF run] run show ?thesis by simp
qed

text \<open>
  C2: when the fetch of an attempt is aborted by the timer, the probe ends there whatever
  \<open>retries\<close> is: the outcome has status \<open>error\<close> and the timeout message, and the count of
  fetches has grown by exactly one (so a probe whose first attempt times out is attempted
  once).
\<close>

theorem timeout_not_retried:
  assumes "fetched (w n) = Inl err" and "errName err = ''AbortError''"
  shows "testApi k apiUrl retries w n =
           (\<lparr>key = k, api = apiUrl, status = ''error'', httpCode = None,
             time = nowInCatch (w n) - startTime (w n), dataCount = None,
             hasValidData = JUndefined, error = Some timeout_message\<rparr>, Suc n)"
  using assms by (simp add: testApi.simps[of k apiUrl retries] try_block_def)

theorem timeout_not_retried_witness:
  "fetched (never_responds 0) = Inl \<lparr>errName = ''AbortError'', errMessage = ''This operation was aborted''\<rparr> \<and>
   testApi ''d'' ''http://d'' 1 never_responds 0 =
     (\<lparr>key = ''d'', api = ''http://d'', status = ''error'', httpCode = None, time = 8000,
       dataCount = None, hasValidData = JUndefined, error = Some timeout_message\<rparr>, 1)"
proof -
  have f: "fetched (never_responds 0) = Inl \<lparr>errName = ''AbortError'', errMessage = ''This operation was aborted''\<rparr>"
    by (simp add: never_responds_def)
  have t: "nowInCatch (never_responds 0) - startTime (never_responds 0) = 8000"
    by (simp add: never_responds_def)
  from timeout_not_retried[where w = never_responds and n = 0 and k = "''d''"
      and apiUrl = "''http://d''" and retries = 1, OF f] f t
  show ?thesis by simp
qed

lemma all_attempts_throw:
  assumes "\<forall>i \<le> x. try_block k apiUrl (w (n + i)) = Inl (errs i) \<and> errName (errs i) \<noteq> ''AbortError''"
  shows "testApi k apiUrl (int x) w n =
           (\<lparr>key = k, api = apiUrl, status = ''error'', httpCode = None,
             time = nowInCatch (w (n + x)) - startTime (w (n + x)),
             dataCount = None, hasValidData = JUndefined,
             error = Some (errMessage (errs x))\<rparr>, n + x + 1)"
  using assms
proof (induction x arbitrary: n errs)
  case 0
  then show ?case by (simp add: testApi.simps[of k apiUrl 0])
next
  case (Suc x)
  from Suc.prems have here: "try_block k apiUrl (w n) = Inl (errs 0)" "errName (errs 0) \<noteq> ''AbortError''"
    by (metis add.right_neutral le0)+
  have rest: "\<forall>i \<le> x. try_block k apiUrl (w (Suc n + i)) = Inl (errs (Suc i)) \<and> errName (errs (Suc i)) \<noteq> ''AbortError''"
  proof (intro allI impI)
    fix i assume "i \<le> x"
    then have "Suc i \<le> Suc x" by simp
    with Suc.prems have "try_block k apiUrl (w (n + Suc i)) = Inl (errs (Suc i)) \<and> errName (errs (Suc i)) \<noteq> ''AbortError''"
      by blast
    then show "try_block k apiUrl (w (Suc n + i)) = Inl (errs (Suc i)) \<and> errName (errs (Suc i)) \<noteq> ''AbortError''"
      by simp
  qed
  have pred: "int (Suc x) - 1 = int x" and pos: "int (Suc x) > 0" by simp_all
  from here pos have "testApi k apiUrl (int (Suc x)) w n = testApi k apiUrl (int (Suc x) - 1) w (Suc n)"
    by (subst testApi.simps) (simp del: of_nat_Suc)
  then have "testApi k apiUrl (int (Suc x)) w n = testApi k apiUrl (int x) w (Suc n)"
    by (simp only: pred)
  also have "\<dots> = (\<lparr>key = k, api = apiUrl, status = ''error'', httpCode = None,
             time = nowInCatch (w (Suc n + x)) - startTime (w (Suc n + x)),
             dataCount = None, hasValidData = JUndefined,
             error = Some (errMessage (errs (Suc x)))\<rparr>, Suc n + x + 1)"
    by (rule Suc.IH[OF rest])
  finally show ?case by simp
qed

text \<open>
  C3: with \<open>retries \<ge> 0\<close>, when every attempt throws an error other than the abort (the
  fetch rejects, or a 2xx body fails to parse), the probe issues \<open>retries + 1\<close> fetches and
  then returns status \<open>error\<close> with the message of the last error. \<open>testApi\<close> is a total
  function, so it returns for every \<open>retries\<close>.
\<close>

theorem network_error_retries:
  assumes "0 \<le> retries"
    and "\<forall>i \<le> nat retries. try_block k apiUrl (w (n + i)) = Inl (errs i) \<and> errName (errs i) \<noteq> ''AbortError''"
  shows "testApi k apiUrl retries w n =
           (\<lparr>key = k, api = apiUrl, status = ''error'', httpCode = None,
             time = nowInCatch (w (n + nat retries)) - startTime (w (n + nat retries)),
             dataCount = None, hasValidData = JUndefined,
             error = Some (errMessage (errs (nat retries)))\<rparr>, n + nat retries + 1)"
proof -
  from assms(1) have "int (nat retries) = retries" by simp
  with all_attempts_throw[OF assms(2)] show ?thesis by simp
qed

theorem network_error_retries_witness:
  "(0::int) \<le> 1 \<and>
   try_block ''c'' ''http://c'' (refused_then_malformed 0) = Inl \<lparr>errName = ''TypeError'', errMessage = ''fetch failed''\<rparr> \<and>
   try_block ''c'' ''http://c'' (refused_then_malformed 1) = Inl \<lparr>errName = ''SyntaxError'', errMessage = ''Unexpected token''\<rparr> \<and>
   testApi ''c'' ''http://c'' 1 refused_then_malformed 0 =
     (\<lparr>key = ''c'', api = ''http://c'', status = ''error'', httpCode = None, time = 45,
       dataCount = None, hasValidData = JUndefined, error = Some ''Unexpected token''\<rparr>, 2)"
proof -
  let ?errs = "\<lambda>i::nat. if i = 0 then \<lparr>errName = ''TypeError'', errMessage = ''fetch failed''\<rparr>
                        else \<lparr>errName = ''SyntaxError'', errMessage = ''Unexpected token''\<rparr>"
  have t0: "try_block ''c'' ''http://c'' (refused_then_malformed 0) = Inl \<lparr>errName = ''TypeError'', errMessage = ''fetch failed''\<rparr>"
    by (simp add: try_block_def refused_then_malformed_def)
  have t1: "try_block ''c'' ''http://c'' (refused_then_malformed 1) = Inl \<lparr>errName = ''SyntaxError'', errMessage = ''Unexpected token''\<rparr>"
    by (simp add: try_block_def refused_then_malformed_def ok_def)
  have all: "\<forall>i \<le> nat 1. try_block ''c'' ''http://c'' (refused_then_malformed (0 + i)) = Inl (?errs i) \<and> errName (?errs i) \<noteq> ''AbortError''"
  proof (intro allI impI)
    fix i :: nat assume "i \<le> nat 1"
    then consider "i = 0" | "i = 1" by fastforce
    then show "try_block ''c'' ''http://c'' (refused_then_malformed (0 + i)) = Inl (?errs i) \<and> errName (?errs i) \<noteq> ''AbortError''"
      using t0 t1 by cases simp_all
  qed
  have t: "nowInCatch (refused_then_malformed 1) - startTime (refused_then_malformed 1) = 45"
    by (simp add: refused_then_malformed_def)
  have "(0::int) \<le> 1" by simp
  from network_error_retries[OF this all] t t0 t1 show ?thesis by simp
qed

text \<open>
  C8: a response whose status is outside 200 to 299 ends the probe at once, whatever
  \<open>retries\<close> is: status \<open>http_error\<close>, the numeric status in \<open>httpCode\<close>, one fetch.
\<close>

theorem http_error_not_retried:
  assumes "fetched (w n) = Inr resp" and "respStatus resp < 200 \<or> 299 < respStatus resp"
  shows "testApi k apiUrl retries w n =
           (\<lparr>key = k, api = apiUrl, status = ''http_error'', httpCode = Some (respStatus resp),
             time = nowAfterFetch (w n) - startTime (w n), dataCount = None,
             hasValidData = JUndefined, error = Some (''HTTP '' @ to_string (respStatus resp))\<rparr>, Suc n)"
  using assms by (auto simp add: testApi.simps[of k apiUrl retries] try_block_def ok_def)

theorem http_error_not_retried_witness:
  "fetched (not_found 0) = Inr \<lparr>respStatus = 404, respJson = Inr JNull\<rparr> \<and>
   testApi ''b'' ''http://b'' 1 not_found 0 =
     (\<lparr>key = ''b'', api = ''http://b'', status = ''http_error'', httpCode = Some 404, time = 20,
       dataCount = None, hasValidData = JUndefined, error = Some ''HTTP 404''\<rparr>, 1)"
proof -
  have f: "fetched (not_found 0) = Inr \<lparr>respStatus = 404, respJson = Inr JNull\<rparr>"
    by (simp add: not_found_def)
  have s: "respStatus \<lparr>respStatus = 404, respJson = Inr JNull\<rparr> < 200 \<or> 299 < respStatus \<lparr>respStatus = 404, respJson = Inr JNull\<rparr>"
    by simp
  have d: "to_string 404 = ''404''" by code_simp
  have t: "nowAfterFetch (not_found 0) - startTime (not_found 0) = 20"
    by (simp add: not_found_def)
  from http_error_not_retried[where w = not_found and n = 0 and k = "''b''"
      and apiUrl = "''http://b''" and retries = 1, OF f s] f d t
  show ?thesis by simp
qed

lemma no_array_falsy:
  assumes "\<not> isArray (prop_list data)"
  shows "count_of data = 0" and "\<not> truthy (hasValidData_of data)"
  using assms by (auto simp: count_of_def hasValidData_of_def hasData_of_def)

text \<open>
  C10: a 2xx response whose body parses but has no array under \<open>list\<close> (no such
  property, a \<open>null\<close> body, or a value that is not an array) ends the probe at once with
  status \<open>success\<close> and \<open>dataCount = 0\<close>; its \<open>hasValidData\<close> does not hold (it is
  falsy, which is how \<open>main\<close> reads it), so \<open>main\<close> puts the outcome in the no-data
  bucket and not among the failures.
\<close>

theorem no_list_is_no_data:
  assumes "fetched (w n) = Inr resp" and "ok resp" and "respJson resp = Inr data"
    and "\<not> isArray (prop_list data)"
  shows "testApi k apiUrl retries w n =
           (\<lparr>key = k, api = apiUrl, status = ''success'', httpCode = Some (respStatus resp),
             time = nowAfterFetch (w n) - startTime (w n), dataCount = Some 0,
             hasValidData = hasValidData_of data, error = None\<rparr>, Suc n) \<and>
         truthy (hasValidData_of data) = False \<and>
         is_noData (result.extend (fst (testApi k apiUrl retries w n)) (named_result.fields nm)) \<and>
         \<not> is_failed (result.extend (fst (testApi k apiUrl retries w n)) (named_result.fields nm)) \<and>
         \<not> is_successful (result.extend (fst (testApi k apiUrl retries w n)) (named_result.fields nm))"
proof -
  have run: "testApi k apiUrl retries w n =
           (\<lparr>key = k, api = apiUrl, status = ''success'', httpCode = Some (respStatus resp),
             time = nowAfterFetch (w n) - startTime (w n), dataCount = Some 0,
             hasValidData = hasValidData_of data, error = None\<rparr>, Suc n)"
    using assms(1-3) no_array_falsy(1)[OF assms(4)]
    by (simp add: testApi.simps[of k apiUrl retries] try_block_def)
  moreover have "is_noData (result.extend (fst (testApi k apiUrl retries w n)) (named_result.fields nm))"
    and "\<not> is_failed (result.extend (fst (testApi k apiUrl retries w n)) (named_result.fields nm))"
    and "\<not> is_successful (result.extend (fst (testApi k apiUrl retries w n)) (named_result.fields nm))"
    using no_array_falsy(2)[OF assms(4)]
    by (simp_all add: run is_noData_def is_failed_def is_successful_def result.defs named_result.defs)
  ultimately show ?thesis using no_array_falsy(2)[OF assms(4)] by simp
qed

theorem no_list_is_no_data_witness:
  "fetched (empty_object 0) = Inr \<lparr>respStatus = 200, respJson = Inr (JObj [])\<rparr> \<and>
   ok \<lparr>respStatus = 200, respJson = Inr (JObj [])\<rparr> \<and>
   \<not> isArray (prop_list (JObj [])) \<and>
   status (fst (testApi ''e'' ''http://e'' 1 empty_object 0)) = ''success'' \<and>
   dataCount (fst (testApi ''e'' ''http://e'' 1 empty_object 0)) = Some 0 \<and>
   truthy (hasValidData (fst (testApi ''e'' ''http://e'' 1 empty_object 0))) = False \<and>
   snd (testApi ''e'' ''http://e'' 1 empty_object 0) = 1 \<and>
   is_noData (result.extend (fst (testApi ''e'' ''http://e'' 1 empty_object 0)) (named_result.fields ''E''))"
proof -
  have f: "fetched (empty_object 0) = Inr \<lparr>respStatus = 200, respJson = Inr (JObj [])\<rparr>"
    by (simp add: empty_object_def)
  have o: "ok \<lparr>respStatus = 200, respJson = Inr (JObj [])\<rparr>" by (simp add: ok_def)
  have j: "respJson \<lparr>respStatus = 200, respJson = Inr (JObj [])\<rparr> = Inr (JObj [])" by simp
  have a: "\<not> isArray (prop_list (JObj []))" by simp
  from no_list_is_no_data[where w = empty_object and n = 0 and k = "''e''" and apiUrl = "''http://e''"
      and retries = 1 and nm = "''E''", OF f o j a] f o a
  show ?thesis by (simp add: is_noData_def result.defs named_result.defs)
qed

section \<open>The scheduler\<close>

lemma those_map_Some: "those xs = Some ys \<Longrightarrow> map Some ys = xs"
  by (induction xs arbitrary: ys) (auto split: option.splits)

lemma order_inv_init: "order_inv tasks init"
  by (simp add: order_inv_def init_def)

lemma bound_inv_init: "1 \<le> concurrency \<Longrightarrow> bound_inv concurrency init"
  by (simp add: bound_inv_def init_def)

lemma order_inv_step:
  assumes "order_inv tasks s" and "step tasks concurrency e s = Some s'"
  shows "order_inv tasks s'"
proof (cases e)
  case Dispatch
  with assms show ?thesis
    by (auto simp: order_inv_def Let_def split: if_splits)
next
  case (Settle j w)
  with assms(2) have j: "j < nextTask s" "settled s j = None"
    and s': "s' = s\<lparr>executing := removeAll j (executing s),
                 settled := (settled s)(j \<mapsto> (tasks ! j) w),
                 pc := (case pc s of
                          AwaitRace raced \<Rightarrow> if j \<in> set raced then LoopHead else AwaitRace raced
                        | p \<Rightarrow> p)\<rparr>"
    by (auto split: if_splits)
  have not_returned: "pc s \<noteq> Returned vs" for vs
  proof
    assume "pc s = Returned vs"
    with assms(1) have "map Some vs = map (settled s) [0..<nextTask s]"
      by (simp add: order_inv_def)
    then have "map Some vs ! j = map (settled s) [0..<nextTask s] ! j" by simp
    moreover from \<open>map Some vs = map (settled s) [0..<nextTask s]\<close> have "length vs = nextTask s"
      by (metis length_map length_upt minus_nat.diff_0)
    ultimately show False using j by simp
  qed
  from assms(1) s' not_returned show ?thesis
    by (cases "pc s") (auto simp: order_inv_def)
next
  case ExitLoop
  with assms show ?thesis
    by (auto simp: order_inv_def split: if_splits)
next
  case Return
  with assms show ?thesis
    by (auto simp: order_inv_def dest: those_map_Some split: if_splits option.splits)
qed

lemma bound_inv_step:
  assumes "bound_inv concurrency s" and "step tasks concurrency e s = Some s'"
  shows "bound_inv concurrency s'"
proof (cases e)
  case Dispatch
  with assms(2) have en: "pc s = LoopHead" "nextTask s < length tasks" by (auto split: if_splits)
  from assms(1) have fresh: "nextTask s \<notin> set (executing s)" by (simp add: bound_inv_def)
  with Dispatch assms(2) en have s': "s' = s\<lparr>nextTask := Suc (nextTask s),
                    promises := promises s @ [nextTask s],
                    executing := executing s @ [nextTask s],
                    pc := (if length (executing s @ [nextTask s]) \<ge> concurrency
                           then AwaitRace (executing s @ [nextTask s]) else LoopHead)\<rparr>"
    by (auto simp: Let_def)
  from assms(1) en have small: "length (executing s) < concurrency" by (simp add: bound_inv_def)
  from assms(1) have unsettled: "settled s (nextTask s) = None" by (simp add: bound_inv_def)
  have "set (executing s @ [nextTask s]) = {j. j < Suc (nextTask s) \<and> settled s j = None}"
    using assms(1) unsettled by (auto simp: bound_inv_def less_Suc_eq)
  with assms(1) fresh small show ?thesis
    unfolding s' by (simp add: bound_inv_def)
next
  case (Settle j w)
  with assms(2) have j: "j < nextTask s" "settled s j = None"
    and s': "s' = s\<lparr>executing := removeAll j (executing s),
                 settled := (settled s)(j \<mapsto> (tasks ! j) w),
                 pc := (case pc s of
                          AwaitRace raced \<Rightarrow> if j \<in> set raced then LoopHead else AwaitRace raced
                        | p \<Rightarrow> p)\<rparr>"
    by (auto split: if_splits)
  from assms(1) j have mem: "j \<in> set (executing s)" by (simp add: bound_inv_def)
  from assms(1) have d: "distinct (executing s)" by (simp add: bound_inv_def)
  from mem d have len: "length (removeAll j (executing s)) < length (executing s)"
    by (metis length_removeAll_less)
  have set': "set (removeAll j (executing s)) = {i. i < nextTask s \<and> ((settled s)(j \<mapsto> (tasks ! j) w)) i = None}"
    using assms(1) by (auto simp: bound_inv_def)
  have later: "\<forall>i \<ge> nextTask s. ((settled s)(j \<mapsto> (tasks ! j) w)) i = None"
    using assms(1) j by (auto simp: bound_inv_def)
  from assms(1) have le: "length (executing s) \<le> concurrency" by (simp add: bound_inv_def)
  show ?thesis
  proof (cases "pc s")
    case (AwaitRace raced)
    with assms(1) have "raced = executing s" by (simp add: bound_inv_def)
    with AwaitRace mem s' d set' later len le show ?thesis
      by (simp add: bound_inv_def distinct_removeAll)
  qed (use s' d set' later len le assms(1) in \<open>simp_all add: bound_inv_def distinct_removeAll\<close>)
next
  case ExitLoop
  with assms show ?thesis
    by (auto simp: bound_inv_def split: if_splits)
next
  case Return
  with assms show ?thesis
    by (auto simp: bound_inv_def split: if_splits option.splits)
qed

lemma order_inv_run:
  "order_inv tasks s \<Longrightarrow> run tasks concurrency evs s = Some s' \<Longrightarrow> order_inv tasks s'"
  by (induction evs arbitrary: s) (auto split: option.splits dest: order_inv_step)

lemma bound_inv_run:
  "bound_inv concurrency s \<Longrightarrow> run tasks concurrency evs s = Some s' \<Longrightarrow> bound_inv concurrency s'"
  by (induction evs arbitrary: s) (auto split: option.splits dest: bound_inv_step)

lemma run_append:
  "run tasks concurrency (evs @ evs') s =
     (case run tasks concurrency evs s of None \<Rightarrow> None | Some s' \<Rightarrow> run tasks concurrency evs' s')"
  by (induction evs arbitrary: s) (auto split: option.splits)

lemma inflight_executing:
  assumes "bound_inv concurrency s"
  shows "length (inflight s) = length (executing s)"
proof -
  have "distinct (inflight s)" by (simp add: inflight_def)
  moreover have "set (inflight s) = set (executing s)"
    using assms by (auto simp: inflight_def bound_inv_def)
  moreover from assms have "distinct (executing s)" by (simp add: bound_inv_def)
  ultimately show ?thesis by (metis distinct_card)
qed

lemma task_a: "task (''a'', \<lparr>siteApi = ''http://a'', siteName = ''A''\<rparr>) reset_then_ok = result_a"
  by (simp add: task_def CONFIG_retryCount_def eval_probe reset_then_ok_def result_a_def
      result.defs named_result.defs)

lemma to_string_404: "to_string 404 = ''404''"
  by code_simp

lemma task_b: "task (''b'', \<lparr>siteApi = ''http://b'', siteName = ''B''\<rparr>) not_found = result_b"
  by (simp add: task_def CONFIG_retryCount_def eval_probe not_found_def result_b_def
      result.defs named_result.defs to_string_404)

lemma task_d: "task (''d'', \<lparr>siteApi = ''http://d'', siteName = ''D''\<rparr>) never_responds = result_d"
  by (simp add: task_def CONFIG_retryCount_def eval_probe never_responds_def result_d_def
      result.defs named_result.defs)

lemma example_run:
  "runWithConcurrency (map task example_sites) CONFIG_concurrency example_schedule
     = Some [result_a, result_b, result_d]"
  by (simp add: runWithConcurrency_def example_sites_def example_schedule_def init_def
      CONFIG_concurrency_def task_a task_b task_d Let_def)

lemma example_bounded_run:
  "run (map task example_sites) 2
     [Dispatch, Dispatch, Settle 1 not_found, Dispatch, Settle 2 never_responds] init
   = Some \<lparr>nextTask = 3, promises = [0, 1, 2], executing = [0],
           settled = [1 \<mapsto> result_b, 2 \<mapsto> result_d], pc = LoopHead\<rparr>"
  by (simp add: example_sites_def init_def task_b task_d Let_def)

text \<open>
  C4: with a concurrency bound of at least 1, at every point of every schedule (after every
  prefix \<open>evs\<close> of a possible schedule) the number of tasks dispatched and not yet settled
  is at most the bound.
\<close>

theorem inflight_bounded:
  assumes "1 \<le> concurrency" and "run tasks concurrency (evs @ evs') init = Some s'"
  shows "\<exists>s. run tasks concurrency evs init = Some s \<and> length (inflight s) \<le> concurrency"
proof -
  from assms(2) obtain s where s: "run tasks concurrency evs init = Some s"
    by (auto simp: run_append split: option.splits)
  from bound_inv_run[OF bound_inv_init[OF assms(1)] s] have inv: "bound_inv concurrency s" .
  then have "length (executing s) \<le> concurrency" by (simp add: bound_inv_def)
  with inflight_executing[OF inv] s show ?thesis by simp
qed

theorem inflight_bounded_witness:
  "(1::nat) \<le> 2 \<and>
   run (map task example_sites) 2
     ([Dispatch, Dispatch] @ [Settle 1 not_found, Dispatch, Settle 2 never_responds]) init
   = Some \<lparr>nextTask = 3, promises = [0, 1, 2], executing = [0],
           settled = [1 \<mapsto> result_b, 2 \<mapsto> result_d], pc = LoopHead\<rparr> \<and>
   (\<exists>s. run (map task example_sites) 2 [Dispatch, Dispatch] init = Some s \<and> length (inflight s) \<le> 2)"
proof -
  have c: "(1::nat) \<le> 2" by simp
  have r: "run (map task example_sites) 2
     ([Dispatch, Dispatch] @ [Settle 1 not_found, Dispatch, Settle 2 never_responds]) init
   = Some \<lparr>nextTask = 3, promises = [0, 1, 2], executing = [0],
           settled = [1 \<mapsto> result_b, 2 \<mapsto> result_d], pc = LoopHead\<rparr>"
    using example_bounded_run by simp
  from inflight_bounded[OF c r] c r show ?thesis by blast
qed

lemma settled_run:
  "run tasks concurrency evs s = Some s' \<Longrightarrow>
   settled s' j = (case settled s j of Some v \<Rightarrow> Some v
                   | None \<Rightarrow> map_option (tasks ! j) (settle_world evs j))"
proof (induction evs arbitrary: s)
  case Nil
  then show ?case by (auto split: option.splits)
next
  case (Cons e es)
  then obtain s1 where s1: "step tasks concurrency e s = Some s1" and rest: "run tasks concurrency es s1 = Some s'"
    by (auto split: option.splits)
  note IH = Cons.IH[OF rest]
  show ?case
  proof (cases e)
    case (Settle i w)
    with s1 have "settled s i = None" "settled s1 = (settled s)(i \<mapsto> (tasks ! i) w)"
      by (auto split: if_splits)
    with IH Settle show ?thesis by (auto split: option.splits)
  next
    case Dispatch
    with s1 have "settled s1 = settled s" by (auto simp: Let_def split: if_splits)
    with IH Dispatch show ?thesis by (simp split: option.splits)
  next
    case ExitLoop
    with s1 have "settled s1 = settled s" by (auto split: if_splits)
    with IH ExitLoop show ?thesis by (simp split: option.splits)
  next
    case Return
    with s1 have "settled s1 = settled s" by (auto split: if_splits option.splits)
    with IH Return show ?thesis by (simp split: option.splits)
  qed
qed

lemma runWithConcurrency_order:
  assumes "runWithConcurrency tasks concurrency evs = Some vs"
  shows "map Some vs = map (\<lambda>i. map_option (tasks ! i) (settle_world evs i)) [0..<length tasks]"
proof -
  from assms obtain s where s: "run tasks concurrency evs init = Some s" and pc: "pc s = Returned vs"
    by (auto simp: runWithConcurrency_def split: option.splits pc.splits)
  from order_inv_run[OF order_inv_init s] pc
  have "nextTask s = length tasks" "map Some vs = map (settled s) [0..<nextTask s]"
    by (simp_all add: order_inv_def)
  moreover have "settled s j = map_option (tasks ! j) (settle_world evs j)" for j
    using settled_run[OF s, of j] by (simp add: init_def)
  ultimately show ?thesis by simp
qed

text \<open>
  Every list of tasks can be run to the end, whatever the bound: under the one-by-one
  schedule \<open>runWithConcurrency\<close> returns.
\<close>

lemma those_all_Some: "those (map (\<lambda>j. Some (f j)) xs) = Some (map f xs)"
  by (induction xs) auto

lemma settled_upto_step:
  assumes "k < length tasks"
  shows "run tasks concurrency [Dispatch, Settle k (ws k)] (settled_upto tasks ws k)
           = Some (settled_upto tasks ws (Suc k))"
proof -
  have "(\<lambda>j. if j < k then Some ((tasks ! j) (ws j)) else None)(k \<mapsto> (tasks ! k) (ws k))
          = (\<lambda>j. if j < Suc k then Some ((tasks ! j) (ws j)) else None)"
    by (auto simp: fun_eq_iff less_Suc_eq)
  with assms show ?thesis
    by (simp add: settled_upto_def Let_def)
qed

lemma settled_upto_finish:
  "run tasks concurrency [ExitLoop, Return] (settled_upto tasks ws (length tasks))
     = Some ((settled_upto tasks ws (length tasks))
               \<lparr>pc := Returned (map (\<lambda>j. (tasks ! j) (ws j)) [0..<length tasks])\<rparr>)"
proof -
  have "map (\<lambda>j. if j < length tasks then Some ((tasks ! j) (ws j)) else None) [0..<length tasks]
          = map (\<lambda>j. Some ((tasks ! j) (ws j))) [0..<length tasks]"
    by simp
  then have "those (map (\<lambda>j. if j < length tasks then Some ((tasks ! j) (ws j)) else None) [0..<length tasks])
          = Some (map (\<lambda>j. (tasks ! j) (ws j)) [0..<length tasks])"
    by (simp only: those_all_Some)
  then show ?thesis by (simp add: settled_upto_def)
qed

lemma one_by_one_run:
  assumes "k \<le> length tasks"
  shows "run tasks concurrency (one_by_one tasks ws k) (settled_upto tasks ws k)
           = Some (settled_upto tasks ws (length tasks))"
  using assms
proof (induction "length tasks - k" arbitrary: k)
  case 0
  then show ?case by (simp add: one_by_one_def)
next
  case (Suc d)
  then have k: "k < length tasks" and d: "d = length tasks - Suc k" by simp_all
  from k have "one_by_one tasks ws k = [Dispatch, Settle k (ws k)] @ one_by_one tasks ws (Suc k)"
    by (simp add: one_by_one_def upt_conv_Cons)
  then have "run tasks concurrency (one_by_one tasks ws k) (settled_upto tasks ws k)
          = run tasks concurrency (one_by_one tasks ws (Suc k)) (settled_upto tasks ws (Suc k))"
    using settled_upto_step[OF k, of concurrency ws] by (simp only: run_append option.case)
  also have "\<dots> = Some (settled_upto tasks ws (length tasks))"
    using Suc.hyps(1)[OF d] k by simp
  finally show ?case .
qed

lemma runWithConcurrency_returns:
  "runWithConcurrency tasks concurrency (one_by_one tasks ws 0 @ [ExitLoop, Return])
     = Some (map (\<lambda>j. (tasks ! j) (ws j)) [0..<length tasks])"
proof -
  have "init = settled_upto tasks ws 0" by (simp add: init_def settled_upto_def)
  then have "run tasks concurrency (one_by_one tasks ws 0) init = Some (settled_upto tasks ws (length tasks))"
    using one_by_one_run[of 0 tasks concurrency ws] by simp
  then show ?thesis
    by (simp add: runWithConcurrency_def run_append settled_upto_finish del: run.simps)
qed

section \<open>The report\<close>

lemma aggregate_eq:
  "aggregate rs totalTime now =
     (\<lparr>testTime = now, totalApis = length rs,
       successCount = length (filter is_successful rs),
       noDataCount = length (filter is_noData rs),
       failedCount = length (filter is_failed rs),
       totalTimeMs = totalTime, results = map report_entry rs\<rparr>,
      sort_key time (filter is_successful rs),
      [rs, sort_key time (filter is_successful rs), filter is_noData rs, filter is_failed rs])"
  by (simp add: aggregate_def filter_array_def sort_array_def Let_def)

lemma three_buckets:
  "length (filter is_successful rs) + length (filter is_noData rs) + length (filter is_failed rs)
     = length rs"
  by (induction rs) (auto simp: is_successful_def is_noData_def is_failed_def)

lemma three_buckets_mset:
  "mset (filter is_successful rs) + mset (filter is_noData rs) + mset (filter is_failed rs)
     = mset rs"
  by (induction rs) (auto simp: is_successful_def is_noData_def is_failed_def)

text \<open>
  C6: the three counts of the report are the sizes of the three filters, the three filters
  split the results (as multisets), and the counts add up to \<open>totalApis\<close>, which is the
  number of entries in \<open>results\<close>.
\<close>

theorem report_counts_partition:
  "successCount (fst (aggregate rs totalTime now)) = length (filter is_successful rs) \<and>
   noDataCount (fst (aggregate rs totalTime now)) = length (filter is_noData rs) \<and>
   failedCount (fst (aggregate rs totalTime now)) = length (filter is_failed rs) \<and>
   mset (filter is_successful rs) + mset (filter is_noData rs) + mset (filter is_failed rs) = mset rs \<and>
   successCount (fst (aggregate rs totalTime now)) + noDataCount (fst (aggregate rs totalTime now))
     + failedCount (fst (aggregate rs totalTime now)) = totalApis (fst (aggregate rs totalTime now)) \<and>
   totalApis (fst (aggregate rs totalTime now)) = length (results (fst (aggregate rs totalTime now)))"
  using three_buckets[of rs] three_buckets_mset[of rs]
  by (simp add: aggregate_eq del: mset_filter)

text \<open>
  C7: \<open>sort\<close> works on the array that \<open>filter\<close> allocated, so the array \<open>results\<close>
  (position 0 of the store) is the same after it, and the report lists the results in the
  order they came in. What is printed is the successful results in ascending order of
  \<open>time\<close>, results of equal \<open>time\<close> keeping their order of submission.
\<close>

theorem display_sort_keeps_results:
  "snd (snd (aggregate rs totalTime now)) ! 0 = rs \<and>
   results (fst (aggregate rs totalTime now)) = map report_entry rs \<and>
   fst (snd (aggregate rs totalTime now)) = sort_key time (filter is_successful rs) \<and>
   sorted (map time (fst (snd (aggregate rs totalTime now)))) \<and>
   (\<forall>t. filter (\<lambda>r. time r = t) (fst (snd (aggregate rs totalTime now)))
        = filter (\<lambda>r. time r = t) (filter is_successful rs))"
  by (simp add: aggregate_eq sort_key_stable del: filter_filter)

lemma testApi_key_api:
  "key (fst (testApi k apiUrl retries w n)) = k \<and> api (fst (testApi k apiUrl retries w n)) = apiUrl"
proof (induction k apiUrl retries w n rule: testApi.induct)
  case (1 k apiUrl retries w n)
  show ?case
  proof (cases "try_block k apiUrl (w n)")
    case (Inr r)
    then have "key r = k \<and> api r = apiUrl"
      by (auto simp: try_block_def Let_def split: sum.splits if_splits)
    with Inr show ?thesis by (simp add: testApi.simps[of k apiUrl retries])
  next
    case (Inl err)
    with 1 show ?thesis by (simp add: testApi.simps[of k apiUrl retries])
  qed
qed

lemma testApi_shape:
  "(status (fst (testApi k apiUrl retries w n)) = ''success'' \<and>
      dataCount (fst (testApi k apiUrl retries w n)) \<noteq> None) \<or>
   (status (fst (testApi k apiUrl retries w n)) \<in> {''http_error'', ''error''} \<and>
      dataCount (fst (testApi k apiUrl retries w n)) = None \<and>
      hasValidData (fst (testApi k apiUrl retries w n)) = JUndefined)"
proof (induction k apiUrl retries w n rule: testApi.induct)
  case (1 k apiUrl retries w n)
  show ?case
  proof (cases "try_block k apiUrl (w n)")
    case (Inr r)
    then have "(status r = ''success'' \<and> dataCount r \<noteq> None) \<or>
               (status r \<in> {''http_error'', ''error''} \<and> dataCount r = None \<and> hasValidData r = JUndefined)"
      by (auto simp: try_block_def Let_def split: sum.splits if_splits)
    with Inr show ?thesis by (simp add: testApi.simps[of k apiUrl retries])
  next
    case (Inl err)
    with 1 show ?thesis by (simp add: testApi.simps[of k apiUrl retries])
  qed
qed

lemma task_fields:
  "{''key'', ''name'', ''api'', ''status'', ''timeMs''}
     \<subseteq> set (fields_of (stringify_object (report_entry (task entry w)))) \<and>
   (''dataCount'' \<in> set (fields_of (stringify_object (report_entry (task entry w))))
      \<longleftrightarrow> status (task entry w) = ''success'') \<and>
   (''hasValidData'' \<in> set (fields_of (stringify_object (report_entry (task entry w))))
      \<longrightarrow> status (task entry w) = ''success'')"
  using testApi_shape[of "fst entry" "siteApi (snd entry)" CONFIG_retryCount w 0]
  by (auto simp: stringify_object_def report_entry_def task_def Let_def opt_num_def
      result.defs named_result.defs split: option.splits)

lemma main_results:
  assumes "main apiSites evs totalTime now = Some rep"
  shows "length (results rep) = length apiSites \<and>
         (\<forall>i < length apiSites. \<exists>w. settle_world evs i = Some w \<and>
            results rep ! i = report_entry (task (apiSites ! i) w))"
proof -
  from assms obtain vs where vs: "runWithConcurrency (map task apiSites) CONFIG_concurrency evs = Some vs"
    and rep: "rep = fst (aggregate vs totalTime now)"
    by (auto simp: main_def split: option.splits)
  from runWithConcurrency_order[OF vs]
  have eq: "map Some vs = map (\<lambda>i. map_option (map task apiSites ! i) (settle_world evs i)) [0..<length apiSites]"
    by simp
  then have len: "length vs = length apiSites"
    by (metis length_map length_upt minus_nat.diff_0)
  have "\<exists>w. settle_world evs i = Some w \<and> vs ! i = task (apiSites ! i) w" if "i < length apiSites" for i
  proof -
    from eq have "map Some vs ! i = map (\<lambda>i. map_option (map task apiSites ! i) (settle_world evs i)) [0..<length apiSites] ! i"
      by simp
    with that len have "Some (vs ! i) = map_option (task (apiSites ! i)) (settle_world evs i)"
      by simp
    then show ?thesis by (cases "settle_world evs i") auto
  qed
  with len rep show ?thesis by (fastforce simp: aggregate_eq)
qed

lemma example_main:
  "main example_sites example_schedule 8100 ''2026-11-01T00:00:00.000Z'' =
     Some \<lparr>testTime = ''2026-11-01T00:00:00.000Z'', totalApis = 3, successCount = 1,
            noDataCount = 0, failedCount = 2, totalTimeMs = 8100,
            results = [report_entry result_a, report_entry result_b, report_entry result_d]\<rparr>"
  by (simp add: main_def example_run aggregate_eq is_successful_def is_noData_def is_failed_def
      result_a_def result_b_def result_d_def)

text \<open>
  C5: whatever the schedule, the list \<open>runWithConcurrency\<close> resolves to holds at position
  \<open>i\<close> what the \<open>i\<close>-th task returned (on what that task met when it settled); and the
  \<open>results\<close> of the report of \<open>main\<close> list the endpoints in the order of the
  configuration, entry \<open>i\<close> being the outcome of the probe of endpoint \<open>i\<close>.
\<close>

theorem results_in_submission_order:
  "(runWithConcurrency tasks concurrency evs = Some vs \<longrightarrow>
      map Some vs = map (\<lambda>i. map_option (tasks ! i) (settle_world evs i)) [0..<length tasks]) \<and>
   (main apiSites evs' totalTime now = Some rep \<longrightarrow>
      length (results rep) = length apiSites \<and>
      (\<forall>i < length apiSites. \<exists>w. settle_world evs' i = Some w \<and>
          results rep ! i = report_entry (task (apiSites ! i) w)) \<and>
      map (\<lambda>e. map_of e ''key'') (results rep) = map (\<lambda>entry. Some (JStr (fst entry))) apiSites)"
proof (intro conjI impI)
  assume "runWithConcurrency tasks concurrency evs = Some vs"
  then show "map Some vs = map (\<lambda>i. map_option (tasks ! i) (settle_world evs i)) [0..<length tasks]"
    by (rule runWithConcurrency_order)
next
  assume m: "main apiSites evs' totalTime now = Some rep"
  from main_results[OF m] show "length (results rep) = length apiSites" by simp
  from main_results[OF m] show nth: "\<forall>i < length apiSites. \<exists>w. settle_world evs' i = Some w \<and>
          results rep ! i = report_entry (task (apiSites ! i) w)" by simp
  show "map (\<lambda>e. map_of e ''key'') (results rep) = map (\<lambda>entry. Some (JStr (fst entry))) apiSites"
  proof (rule nth_equalityI)
    show "length (map (\<lambda>e. map_of e ''key'') (results rep)) = length (map (\<lambda>entry. Some (JStr (fst entry))) apiSites)"
      using main_results[OF m] by simp
  next
    fix i assume "i < length (map (\<lambda>e. map_of e ''key'') (results rep))"
    then have i: "i < length apiSites" using main_results[OF m] by simp
    with nth obtain w where "results rep ! i = report_entry (task (apiSites ! i) w)" by blast
    moreover have "key (task (apiSites ! i) w) = fst (apiSites ! i)"
      using testApi_key_api[of "fst (apiSites ! i)" "siteApi (snd (apiSites ! i))" CONFIG_retryCount w 0]
      by (simp add: task_def Let_def result.defs named_result.defs)
    ultimately show "map (\<lambda>e. map_of e ''key'') (results rep) ! i = map (\<lambda>entry. Some (JStr (fst entry))) apiSites ! i"
      using i main_results[OF m] by (simp add: report_entry_def)
  qed
qed

theorem results_in_submission_order_witness:
  "runWithConcurrency (map task example_sites) CONFIG_concurrency example_schedule
     = Some [result_a, result_b, result_d] \<and>
   map Some [result_a, result_b, result_d]
     = map (\<lambda>i. map_option (map task example_sites ! i) (settle_world example_schedule i))
         [0..<length (map task example_sites)] \<and>
   main example_sites example_schedule 8100 ''2026-11-01T00:00:00.000Z'' =
     Some \<lparr>testTime = ''2026-11-01T00:00:00.000Z'', totalApis = 3, successCount = 1,
            noDataCount = 0, failedCount = 2, totalTimeMs = 8100,
            results = [report_entry result_a, report_entry result_b, report_entry result_d]\<rparr> \<and>
   map (\<lambda>e. map_of e ''key'') [report_entry result_a, report_entry result_b, report_entry result_d]
     = map (\<lambda>entry. Some (JStr (fst entry))) example_sites"
  using results_in_submission_order[of "map task example_sites" CONFIG_concurrency example_schedule
      "[result_a, result_b, result_d]" example_sites example_schedule 8100
      "''2026-11-01T00:00:00.000Z''"
      "\<lparr>testTime = ''2026-11-01T00:00:00.000Z'', totalApis = 3, successCount = 1,
            noDataCount = 0, failedCount = 2, totalTimeMs = 8100,
            results = [report_entry result_a, report_entry result_b, report_entry result_d]\<rparr>"]
    example_run example_main
  by simp

text \<open>
  C9, as the claim states it: the persisted entry of every outcome would have \<open>dataCount\<close>
  and \<open>hasValidData\<close>. The outcome of a 404 has neither property, \<open>main\<close> reads both as
  \<open>undefined\<close>, and \<open>JSON.stringify\<close> leaves them out.
\<close>

theorem every_outcome_has_counts_counterexample:
  "fields_of (stringify_object (report_entry
      (task (''b'', \<lparr>siteApi = ''http://b'', siteName = ''B''\<rparr>) not_found)))
   = [''key'', ''name'', ''api'', ''status'', ''httpCode'', ''timeMs'', ''error'']"
  by (simp add: task_b result_b_def report_entry_def stringify_object_def opt_num_def opt_str_def)

lemma persisted_results: "doc_results (persisted rep) = map stringify_object (results rep)"
  by (simp add: persisted_def stringify_object_def)

lemma field_status: "field (stringify_object (report_entry r)) ''status'' = Some (JStr (status r))"
  by (simp add: stringify_object_def report_entry_def)

text \<open>
  C9, amended: every entry of \<open>results\<close> in the persisted document has \<open>key\<close>,
  \<open>name\<close>, \<open>api\<close>, \<open>status\<close> and \<open>timeMs\<close>; it has \<open>dataCount\<close> exactly when its
  status is \<open>success\<close>, and \<open>hasValidData\<close> only when its status is \<open>success\<close>.
\<close>

theorem persisted_outcome_fields:
  assumes "main apiSites evs totalTime now = Some rep"
    and "d \<in> set (doc_results (persisted rep))"
  shows "{''key'', ''name'', ''api'', ''status'', ''timeMs''} \<subseteq> set (fields_of d) \<and>
         (''dataCount'' \<in> set (fields_of d) \<longleftrightarrow> field d ''status'' = Some (JStr ''success'')) \<and>
         (''hasValidData'' \<in> set (fields_of d) \<longrightarrow> field d ''status'' = Some (JStr ''success''))"
proof -
  from assms(2) obtain i where i: "i < length (results rep)" and d: "d = stringify_object (results rep ! i)"
    by (auto simp: persisted_results in_set_conv_nth)
  from main_results[OF assms(1)] i obtain w where "results rep ! i = report_entry (task (apiSites ! i) w)"
    by auto
  with d have "d = stringify_object (report_entry (task (apiSites ! i) w))" by simp
  with task_fields[of "apiSites ! i" w] show ?thesis
    by (simp only: field_status) simp
qed

theorem persisted_outcome_fields_witness:
  "main example_sites example_schedule 8100 ''2026-11-01T00:00:00.000Z'' =
     Some \<lparr>testTime = ''2026-11-01T00:00:00.000Z'', totalApis = 3, successCount = 1,
            noDataCount = 0, failedCount = 2, totalTimeMs = 8100,
            results = [report_entry result_a, report_entry result_b, report_entry result_d]\<rparr> \<and>
   stringify_object (report_entry result_a) \<in> set (doc_results (persisted
          \<lparr>testTime = ''2026-11-01T00:00:00.000Z'', totalApis = 3, successCount = 1,
            noDataCount = 0, failedCount = 2, totalTimeMs = 8100,
            results = [report_entry result_a, report_entry result_b, report_entry result_d]\<rparr>)) \<and>
   ''hasValidData'' \<in> set (fields_of (stringify_object (report_entry result_a))) \<and>
   ''dataCount'' \<in> set (fields_of (stringify_object (report_entry result_a))) \<and>
   field (stringify_object (report_entry result_a)) ''status'' = Some (JStr ''success'')"
proof -
  have m: "stringify_object (report_entry result_a) \<in> set (doc_results (persisted
          \<lparr>testTime = ''2026-11-01T00:00:00.000Z'', totalApis = 3, successCount = 1,
            noDataCount = 0, failedCount = 2, totalTimeMs = 8100,
            results = [report_entry result_a, report_entry result_b, report_entry result_d]\<rparr>))"
    by (simp add: persisted_results)
  have h: "''hasValidData'' \<in> set (fields_of (stringify_object (report_entry result_a)))"
    by (simp add: result_a_def report_entry_def stringify_object_def opt_num_def opt_str_def)
  from persisted_outcome_fields[OF example_main m] h example_main m show ?thesis by simp
qed

end
